theory Spec2Isabelle
  imports Complex_Main
begin

section \<open>Images\<close>

text \<open>
  A raster image as the program sees a \<^verbatim>\<open>PIL.Image\<close>: a mode string, a width and the
  pixel rows, top row first. The pixel type is left open, since a page can arrive in any
  mode. The height is the number of rows.
\<close>

record 'p image =
  mode :: string
  width :: nat
  pixels :: "'p list list"

definition height :: "'p image \<Rightarrow> nat" where
  "height img = length (pixels img)"

text \<open>Every row of a well-formed image has \<open>width\<close> pixels.\<close>

definition well_formed :: "'p image \<Rightarrow> bool" where
  "well_formed img = list_all (\<lambda>row. length row = width img) (pixels img)"

text \<open>
  \<^verbatim>\<open>Image.crop((left, upper, right, lower))\<close> for a box that lies inside the image, which
  is the only kind \<^verbatim>\<open>segment_lines\<close> builds: a new image of the same mode holding the
  rows \<open>upper..<lower\<close> and, of each, the columns \<open>left..<right\<close>.
\<close>

definition crop :: "'p image \<Rightarrow> int \<times> int \<times> int \<times> int \<Rightarrow> 'p image" where
  "crop img box =
     (case box of (left, upper, right, lower) \<Rightarrow>
        img\<lparr>width := nat (right - left),
            pixels := map (\<lambda>row. take (nat (right - left)) (drop (nat left) row))
                          (take (nat (lower - upper)) (drop (nat upper) (pixels img)))\<rparr>)"

section \<open>Binarisation and projection\<close>

text \<open>
  \<^verbatim>\<open>gray = np.array(page.convert("L"))\<close>. The conversion to 8-bit grey levels is
  Pillow's; it works pixel by pixel and depends on the mode of the page, so it enters as
  the parameter \<open>luma\<close>.
\<close>

definition to_gray :: "(string \<Rightarrow> 'p \<Rightarrow> nat) \<Rightarrow> 'p image \<Rightarrow> nat list list" where
  "to_gray luma page = map (map (luma (mode page))) (pixels page)"

text \<open>
  \<^verbatim>\<open>_, bw = cv2.threshold(gray, 0, 255, cv2.THRESH_BINARY_INV + cv2.THRESH_OTSU)\<close>.
  The level is chosen by OpenCV's implementation of Otsu's method, the parameter
  \<open>otsu\<close>; with the inverted binary type a pixel above the level becomes 0 and every
  other pixel becomes 255.
\<close>

definition threshold_inv :: "(nat list list \<Rightarrow> nat) \<Rightarrow> nat list list \<Rightarrow> nat list list" where
  "threshold_inv otsu gray =
     (let t = otsu gray in map (map (\<lambda>g. if t < g then 0 else 255)) gray)"

text \<open>
  The pixel map above is what \<^verbatim>\<open>cv2.threshold\<close> returns for an array that has elements.
  For an array without elements, one of no rows or of no columns, OpenCV makes an empty
  matrix, and its Python binding hands back \<^verbatim>\<open>None\<close> in the place of an empty matrix.
\<close>

definition cv2_threshold :: "(nat list list \<Rightarrow> nat) \<Rightarrow> nat list list \<Rightarrow> nat list list option" where
  "cv2_threshold otsu gray =
     (if concat gray = [] then None else Some (threshold_inv otsu gray))"

text \<open>
  \<^verbatim>\<open>projection = bw.sum(axis=1)\<close>: numpy adds the unsigned bytes of each row in 64-bit
  unsigned arithmetic.
\<close>

definition row_sums :: "nat list list \<Rightarrow> nat list" where
  "row_sums bw = map (\<lambda>row. sum_list row mod 2 ^ 64) bw"

text \<open>The projection of a page that has pixels.\<close>

definition projection :: "(string \<Rightarrow> 'p \<Rightarrow> nat) \<Rightarrow> (nat list list \<Rightarrow> nat) \<Rightarrow> 'p image \<Rightarrow> nat list" where
  "projection luma otsu page = row_sums (threshold_inv otsu (to_gray luma page))"

subsection \<open>The threshold in binary64\<close>

text \<open>
  \<^verbatim>\<open>thresh = projection.max() * 0.1\<close> multiplies a 64-bit unsigned integer by a Python
  float, and \<^verbatim>\<open>projection > thresh\<close> compares 64-bit unsigned integers with the
  product; numpy does both in IEEE binary64. A natural number is converted by rounding
  it to 53 significant bits, to nearest, ties to even.
\<close>

fun bit_length :: "nat \<Rightarrow> nat" where
  "bit_length n = (if n = 0 then 0 else Suc (bit_length (n div 2)))"

declare bit_length.simps [simp del]

definition round53 :: "nat \<Rightarrow> nat" where
  "round53 k =
     (let s = bit_length k - 53; q = k div 2 ^ s; r = k mod 2 ^ s
      in if 2 ^ s < 2 * r \<or> (2 * r = 2 ^ s \<and> odd q) then (q + 1) * 2 ^ s else q * 2 ^ s)"

definition double_of_nat :: "nat \<Rightarrow> rat" where
  "double_of_nat n = of_nat (round53 n)"

text \<open>
  The literal \<^verbatim>\<open>0.1\<close> is the double \<open>3602879701896397 / 2 ^ 55\<close>. The product of the
  double of \<open>m\<close> with it is the exact product rounded to 53 significant bits; nothing
  overflows or becomes subnormal, \<open>m\<close> being below \<open>2 ^ 64\<close>.
\<close>

definition times_tenth :: "nat \<Rightarrow> rat" where
  "times_tenth m = of_nat (round53 (round53 m * 3602879701896397)) / 2 ^ 55"

text \<open>\<^verbatim>\<open>is_text_row = projection > thresh\<close>, for a projection that is not empty.\<close>

definition text_rows :: "nat list \<Rightarrow> bool list" where
  "text_rows proj =
     (let thresh = times_tenth (Max (set proj)) in map (\<lambda>p. thresh < double_of_nat p) proj)"

definition is_text_row :: "(string \<Rightarrow> 'p \<Rightarrow> nat) \<Rightarrow> (nat list list \<Rightarrow> nat) \<Rightarrow> 'p image \<Rightarrow> bool list" where
  "is_text_row luma otsu page = text_rows (projection luma otsu page)"

section \<open>The row scan\<close>

record 'p LineImage =
  image_of :: "'p image"
  bbox :: "int \<times> int \<times> int \<times> int"

text \<open>The variables the loop of \<^verbatim>\<open>segment_lines\<close> updates.\<close>

record 'p scan_state =
  lines :: "'p LineImage list"
  in_line :: bool
  start_row :: nat

definition pad :: int where
  "pad = 3"

text \<open>
  The line appended when a run that began at \<open>start_row\<close> is closed by the blank row
  \<open>end_row\<close>; \<open>H\<close> is \<^verbatim>\<open>gray.shape[0]\<close>.
\<close>

definition closed_line :: "'p image \<Rightarrow> nat \<Rightarrow> nat \<Rightarrow> nat \<Rightarrow> 'p LineImage" where
  "closed_line page H start end_row =
     (let y1 = max 0 (int start - pad);
          y2 = min (int H) (int end_row + pad);
          line_img = crop page (0, y1, int (width page), y2)
      in \<lparr>image_of = line_img, bbox = (0, y1, int (width page), y2)\<rparr>)"

text \<open>The line appended after the loop when the last row is still inside a run.\<close>

definition tail_line :: "'p image \<Rightarrow> nat \<Rightarrow> nat \<Rightarrow> 'p LineImage" where
  "tail_line page H start =
     (let y1 = max 0 (int start - pad);
          y2 = int H;
          line_img = crop page (0, y1, int (width page), y2)
      in \<lparr>image_of = line_img, bbox = (0, y1, int (width page), y2)\<rparr>)"

text \<open>One iteration of \<^verbatim>\<open>for i, flag in enumerate(is_text_row)\<close>.\<close>

definition scan_step :: "'p image \<Rightarrow> nat \<Rightarrow> 'p scan_state \<Rightarrow> nat \<times> bool \<Rightarrow> 'p scan_state" where
  "scan_step page H st row =
     (case row of (i, flag) \<Rightarrow>
        if flag \<and> \<not> in_line st then st\<lparr>in_line := True, start_row := i\<rparr>
        else if \<not> flag \<and> in_line st then
          st\<lparr>in_line := False, lines := lines st @ [closed_line page H (start_row st) i]\<rparr>
        else st)"

definition scan_init :: "'p scan_state" where
  "scan_init = \<lparr>lines = [], in_line = False, start_row = 0\<rparr>"

definition scan_rows :: "'p image \<Rightarrow> nat \<Rightarrow> bool list \<Rightarrow> 'p scan_state" where
  "scan_rows page H flags = foldl (scan_step page H) scan_init (enumerate 0 flags)"

text \<open>The test after the loop: \<^verbatim>\<open>if in_line: ... lines.append(...)\<close>.\<close>

definition close_tail :: "'p image \<Rightarrow> nat \<Rightarrow> 'p scan_state \<Rightarrow> 'p LineImage list" where
  "close_tail page H st =
     (if in_line st then lines st @ [tail_line page H (start_row st)] else lines st)"

definition emit_lines :: "'p image \<Rightarrow> nat \<Rightarrow> bool list \<Rightarrow> 'p LineImage list" where
  "emit_lines page H flags = close_tail page H (scan_rows page H flags)"

datatype py_error = AttributeError | ValueError

text \<open>
  \<^verbatim>\<open>segment_lines(page)\<close>. For a page without pixels, one of height 0 or of width 0,
  \<^verbatim>\<open>bw\<close> is \<^verbatim>\<open>None\<close> and \<^verbatim>\<open>bw.sum\<close> raises \<^verbatim>\<open>AttributeError\<close>. The maximum of an empty
  projection does not exist, and \<^verbatim>\<open>projection.max()\<close> raises \<^verbatim>\<open>ValueError\<close> for one; no
  page reaches that statement with an empty projection, the call having ended before.
\<close>

definition segment_lines ::
  "(string \<Rightarrow> 'p \<Rightarrow> nat) \<Rightarrow> (nat list list \<Rightarrow> nat) \<Rightarrow> 'p image \<Rightarrow> py_error + 'p LineImage list" where
  "segment_lines luma otsu page =
     (let gray = to_gray luma page
      in case cv2_threshold otsu gray of
           None \<Rightarrow> Inl AttributeError
         | Some bw \<Rightarrow>
             (let proj = row_sums bw
              in if proj = [] then Inl ValueError
                 else Inr (emit_lines page (length gray) (text_rows proj))))"

section \<open>Unpadded detection intervals\<close>

text \<open>
  The runs of consecutive flagged rows, as half-open row intervals \<open>(start_row, end_row)\<close>
  in scan order: a run is closed by the first blank row after it, or by the end of the
  flag sequence. \<open>i\<close> is the index of the next flag and the second argument holds the start
  of the run that is open, if one is.
\<close>

fun runs_from :: "nat \<Rightarrow> nat option \<Rightarrow> bool list \<Rightarrow> (nat \<times> nat) list" where
  "runs_from i None [] = []"
| "runs_from i (Some s) [] = [(s, i)]"
| "runs_from i None (f # fs) = runs_from (Suc i) (if f then Some i else None) fs"
| "runs_from i (Some s) (f # fs) =
     (if f then runs_from (Suc i) (Some s) fs else (s, i) # runs_from (Suc i) None fs)"

definition text_runs :: "bool list \<Rightarrow> (nat \<times> nat) list" where
  "text_runs flags = runs_from 0 None flags"

text \<open>The run that the loop has open in a state, in the form \<open>runs_from\<close> takes it.\<close>

definition open_run :: "'p scan_state \<Rightarrow> nat option" where
  "open_run st = (if in_line st then Some (start_row st) else None)"

text \<open>The upper edge \<open>y1\<close> of the bounding box of a line.\<close>

definition upper_of :: "'p LineImage \<Rightarrow> int" where
  "upper_of line = fst (snd (bbox line))"

section \<open>Recognition of the lines\<close>

text \<open>
  \<^verbatim>\<open>img.convert("RGB")\<close>: Pillow returns a new image of mode \<^verbatim>\<open>RGB\<close> and of the same
  size; what it does to a pixel depends on the mode it converts from, the parameter
  \<open>to_rgb\<close>.
\<close>

definition convert_rgb :: "(string \<Rightarrow> 'p \<Rightarrow> 'p) \<Rightarrow> 'p image \<Rightarrow> 'p image" where
  "convert_rgb to_rgb img =
     img\<lparr>mode := ''RGB'', pixels := map (map (to_rgb (mode img))) (pixels img)\<rparr>"

text \<open>The first statement of \<^verbatim>\<open>_recognize_line\<close>.\<close>

definition ensure_rgb :: "(string \<Rightarrow> 'p \<Rightarrow> 'p) \<Rightarrow> 'p image \<Rightarrow> 'p image" where
  "ensure_rgb to_rgb img = (if mode img \<noteq> ''RGB'' then convert_rgb to_rgb img else img)"

text \<open>
  \<^verbatim>\<open>str.strip()\<close> removes the white space at both ends. A character stands for the code
  point of its number; below 256 Python counts these as white space.
\<close>

definition is_space :: "char \<Rightarrow> bool" where
  "is_space c = (of_char c \<in> {9, 10, 11, 12, 13, 28, 29, 30, 31, 32, 133, 160 :: nat})"

definition strip :: "string \<Rightarrow> string" where
  "strip s = rev (dropWhile is_space (rev (dropWhile is_space s)))"

text \<open>
  \<^verbatim>\<open>_recognize_line\<close>. The processor, the model and the decoder of the transformers
  library together are the parameter \<open>decode\<close>, from the image they are given to the
  first decoded string.
\<close>

definition recognize_line :: "(string \<Rightarrow> 'p \<Rightarrow> 'p) \<Rightarrow> ('p image \<Rightarrow> string) \<Rightarrow> 'p image \<Rightarrow> string" where
  "recognize_line to_rgb decode img = strip (decode (ensure_rgb to_rgb img))"

text \<open>The dictionaries of the result, one record for each shape, a field for each key.\<close>

record bbox_dict =
  x1 :: int
  y1 :: int
  x2 :: int
  y2 :: int

record line_dict =
  bbox_d :: bbox_dict
  text_d :: string

record page_dict =
  page_d :: int
  lines_d :: "line_dict list"

text \<open>The loop over \<^verbatim>\<open>line_imgs\<close>: a line with empty text is skipped.\<close>

fun recognize_lines :: "('p image \<Rightarrow> string) \<Rightarrow> 'p LineImage list \<Rightarrow> line_dict list" where
  "recognize_lines recognize [] = []"
| "recognize_lines recognize (line # rest) =
     (let text = recognize (image_of line)
      in if text = [] then recognize_lines recognize rest
         else (case bbox line of (a, b, c, d) \<Rightarrow>
                 \<lparr>bbox_d = \<lparr>x1 = a, y1 = b, x2 = c, y2 = d\<rparr>, text_d = text\<rparr>)
              # recognize_lines recognize rest)"

text \<open>
  The loop over \<^verbatim>\<open>enumerate(pages, start=1)\<close>, from the page with index \<open>page_index\<close> on.
  An exception of \<^verbatim>\<open>segment_lines\<close> ends the call.
\<close>

fun ocr_from ::
  "(string \<Rightarrow> 'p \<Rightarrow> nat) \<Rightarrow> (nat list list \<Rightarrow> nat) \<Rightarrow> (string \<Rightarrow> 'p \<Rightarrow> 'p) \<Rightarrow> ('p image \<Rightarrow> string)
     \<Rightarrow> int \<Rightarrow> 'p image list \<Rightarrow> py_error + page_dict list" where
  "ocr_from luma otsu to_rgb decode page_index [] = Inr []"
| "ocr_from luma otsu to_rgb decode page_index (page # pages) =
     (case segment_lines luma otsu page of
        Inl err \<Rightarrow> Inl err
      | Inr line_imgs \<Rightarrow>
          (case ocr_from luma otsu to_rgb decode (page_index + 1) pages of
             Inl err \<Rightarrow> Inl err
           | Inr out \<Rightarrow>
               Inr (\<lparr>page_d = page_index,
                     lines_d = recognize_lines (recognize_line to_rgb decode) line_imgs\<rparr>
                    # out)))"

definition ocr_pages ::
  "(string \<Rightarrow> 'p \<Rightarrow> nat) \<Rightarrow> (nat list list \<Rightarrow> nat) \<Rightarrow> (string \<Rightarrow> 'p \<Rightarrow> 'p) \<Rightarrow> ('p image \<Rightarrow> string)
     \<Rightarrow> 'p image list \<Rightarrow> py_error + page_dict list" where
  "ocr_pages luma otsu to_rgb decode pages = ocr_from luma otsu to_rgb decode 1 pages"

text \<open>The line record of a line, given the recogniser.\<close>

definition line_record :: "('p image \<Rightarrow> string) \<Rightarrow> 'p LineImage \<Rightarrow> line_dict" where
  "line_record recognize line =
     (case bbox line of (a, b, c, d) \<Rightarrow>
        \<lparr>bbox_d = \<lparr>x1 = a, y1 = b, x2 = c, y2 = d\<rparr>, text_d = recognize (image_of line)\<rparr>)"

section \<open>Images as objects\<close>





section \<open>Sample inputs\<close>

text \<open>
  Pages of mode \<^verbatim>\<open>L\<close>, whose pixels are grey levels already, so the conversion to grey
  is the identity. Their pixels are 0 (ink) or 255 (paper); on such an image OpenCV's
  Otsu search returns the level 0, so exactly the pixels equal to 0 become ink.
\<close>

definition luma_id :: "string \<Rightarrow> nat \<Rightarrow> nat" where
  "luma_id m p = p"

definition otsu_zero :: "nat list list \<Rightarrow> nat" where
  "otsu_zero gray = 0"

text \<open>Twelve rows, two columns: ink in rows 5 and 6 and in the last two rows, 10 and 11.\<close>

definition page_two_lines :: "nat image" where
  "page_two_lines =
     \<lparr>mode = ''L'', width = 2,
      pixels = [[255, 255], [255, 255], [255, 255], [255, 255], [255, 255], [0, 0],
                [0, 255], [255, 255], [255, 255], [255, 255], [255, 0], [0, 0]]\<rparr>"

text \<open>The same page on grey paper: every paper pixel is 200 instead of 255.\<close>

definition page_two_lines_grey :: "nat image" where
  "page_two_lines_grey =
     \<lparr>mode = ''L'', width = 2,
      pixels = [[200, 200], [200, 200], [200, 200], [200, 200], [200, 200], [0, 0],
                [0, 200], [200, 200], [200, 200], [200, 200], [200, 0], [0, 0]]\<rparr>"

text \<open>Four rows, one column: ink in rows 0 and 2.\<close>

definition page_close_lines :: "nat image" where
  "page_close_lines = \<lparr>mode = ''L'', width = 1, pixels = [[0], [255], [0], [255]]\<rparr>"

text \<open>A blank page of two rows and two columns.\<close>

definition page_blank :: "nat image" where
  "page_blank = \<lparr>mode = ''L'', width = 2, pixels = [[255, 255], [255, 255]]\<rparr>"

text \<open>A page of two rows and no columns, and a page of no rows.\<close>

definition page_no_columns :: "nat image" where
  "page_no_columns = \<lparr>mode = ''L'', width = 0, pixels = [[], []]\<rparr>"

definition page_no_rows :: "nat image" where
  "page_no_rows = \<lparr>mode = ''L'', width = 2, pixels = []\<rparr>"


text \<open>
  An \<^verbatim>\<open>RGB\<close> pixel is held in one number, red first; a grey level becomes the pixel with
  that level in each band.
\<close>

definition rgb_of_grey :: "string \<Rightarrow> nat \<Rightarrow> nat" where
  "rgb_of_grey m v = 65793 * v"

text \<open>
  A recogniser that reads text in images of eight rows and only white space in others,
  and one that differs from it on the images that are not \<^verbatim>\<open>RGB\<close>.
\<close>

definition decode_sample :: "nat image \<Rightarrow> string" where
  "decode_sample img = (if height img = 8 then '' line one  '' else ''  '')"

definition decode_other :: "nat image \<Rightarrow> string" where
  "decode_other img = (if mode img = ''RGB'' then decode_sample img else ''grey'')"

section \<open>The scan emits one line per run\<close>


lemma tail_line_closed: "tail_line page H s = closed_line page H s H"
  by (simp add: tail_line_def closed_line_def pad_def)

lemma scan_step_False [simp]:
  "scan_step page H st (i, False) =
     (if in_line st then st\<lparr>in_line := False, lines := lines st @ [closed_line page H (start_row st) i]\<rparr> else st)"
  by (simp add: scan_step_def)

lemma scan_step_True [simp]:
  "scan_step page H st (i, True) = (if in_line st then st else st\<lparr>in_line := True, start_row := i\<rparr>)"
  by (simp add: scan_step_def)

lemma close_tail_scan:
  "n + length fs = H \<Longrightarrow>
   close_tail page H (foldl (scan_step page H) st (enumerate n fs)) =
   lines st @ map (\<lambda>(s, e). closed_line page H s e) (runs_from n (open_run st) fs)"
proof (induction fs arbitrary: n st)
  case Nil
  then show ?case by (simp add: close_tail_def open_run_def tail_line_closed)
next
  case (Cons f fs)
  have "Suc n + length fs = H" using Cons.prems by simp
  note IH = Cons.IH [OF this]
  show ?case
    by (cases f) (simp_all add: IH open_run_def)
qed

lemma emit_lines_runs:
  "length flags = H \<Longrightarrow> emit_lines page H flags = map (\<lambda>(s, e). closed_line page H s e) (text_runs flags)"
  using close_tail_scan [of 0 flags H page scan_init]
  by (simp add: emit_lines_def scan_rows_def text_runs_def open_run_def scan_init_def)


subsection \<open>Shape of the runs\<close>

lemma runs_from_shape:
  "(\<forall>s. ob = Some s \<longrightarrow> s < i) \<Longrightarrow>
   (case ob of
      None \<Rightarrow> (\<forall>(s, e) \<in> set (runs_from i ob fs). i \<le> s \<and> s < e \<and> e \<le> i + length fs)
              \<and> sorted_wrt (\<lambda>(s, e) (s', e'). e < s') (runs_from i ob fs)
    | Some s0 \<Rightarrow> (\<exists>e rest. runs_from i ob fs = (s0, e) # rest \<and> i \<le> e \<and> e \<le> i + length fs
              \<and> (\<forall>(s', e') \<in> set rest. e < s' \<and> s' < e' \<and> e' \<le> i + length fs)
              \<and> sorted_wrt (\<lambda>(s, e) (s', e'). e < s') rest))"
proof (induction i ob fs rule: runs_from.induct)
  case (1 i)
  then show ?case by simp
next
  case (2 i s)
  then show ?case by simp
next
  case (3 i f fs)
  show ?case
  proof (cases f)
    case True
    with 3 obtain e rest where r: "runs_from (Suc i) (Some i) fs = (i, e) # rest" "Suc i \<le> e"
      "e \<le> Suc i + length fs" "\<forall>(s', e') \<in> set rest. e < s' \<and> s' < e' \<and> e' \<le> Suc i + length fs"
      "sorted_wrt (\<lambda>(s, e) (s', e'). e < s') rest"
      by auto
    then show ?thesis using True by (auto simp: )
  next
    case False
    with 3 have "(\<forall>(s, e) \<in> set (runs_from (Suc i) None fs). Suc i \<le> s \<and> s < e \<and> e \<le> Suc i + length fs)
              \<and> sorted_wrt (\<lambda>(s, e) (s', e'). e < s') (runs_from (Suc i) None fs)" by auto
    then show ?thesis using False by auto
  qed
next
  case (4 i s f fs)
  show ?case
  proof (cases f)
    case True
    have "\<forall>s'. Some s = Some s' \<longrightarrow> s' < Suc i" using 4(3) by auto
    with 4(1) True obtain e rest where r: "runs_from (Suc i) (Some s) fs = (s, e) # rest" "Suc i \<le> e"
      "e \<le> Suc i + length fs" "\<forall>(s', e') \<in> set rest. e < s' \<and> s' < e' \<and> e' \<le> Suc i + length fs"
      "sorted_wrt (\<lambda>(s, e) (s', e'). e < s') rest"
      by auto
    then show ?thesis using True by auto
  next
    case False
    with 4(2) have "(\<forall>(s, e) \<in> set (runs_from (Suc i) None fs). Suc i \<le> s \<and> s < e \<and> e \<le> Suc i + length fs)
              \<and> sorted_wrt (\<lambda>(s, e) (s', e'). e < s') (runs_from (Suc i) None fs)" by auto
    then show ?thesis using False by auto
  qed
qed

lemma text_runs_bounds:
  "(s, e) \<in> set (text_runs flags) \<Longrightarrow> s < e \<and> e \<le> length flags"
  using runs_from_shape [of None 0 flags] by (auto simp: text_runs_def)

lemma text_runs_sorted:
  "sorted_wrt (\<lambda>(s, e) (s', e'). e < s') (text_runs flags)"
  using runs_from_shape [of None 0 flags] by (auto simp: text_runs_def)


subsection \<open>Rounding\<close>

lemma bit_length_0 [simp]: "bit_length 0 = 0"
  by (simp add: bit_length.simps)

lemma bit_length_pos: "0 < k \<Longrightarrow> 0 < bit_length k"
  by (subst bit_length.simps) simp

lemma bit_length_lower: "0 < k \<Longrightarrow> 2 ^ (bit_length k - 1) \<le> k"
proof (induction k rule: bit_length.induct)
  case (1 n)
  have bl: "bit_length n = Suc (bit_length (n div 2))"
    using "1.prems" by (subst bit_length.simps) simp
  show ?case
  proof (cases "n div 2 = 0")
    case True
    then show ?thesis using "1.prems" bl by simp
  next
    case False
    then have "2 ^ (bit_length (n div 2) - 1) \<le> n div 2"
      using "1.IH" "1.prems" by simp
    moreover have "bit_length (n div 2) = Suc (bit_length (n div 2) - 1)"
      using False bit_length_pos [of "n div 2"] by simp
    ultimately have "2 ^ bit_length (n div 2) \<le> 2 * (n div 2)"
      by (metis mult_le_mono2 power_Suc)
    then show ?thesis using bl by simp
  qed
qed

lemma shift_le: "0 < k \<Longrightarrow> (2::nat) ^ (bit_length k - 53) \<le> k"
proof -
  assume k: "0 < k"
  have "(2::nat) ^ (bit_length k - 53) \<le> 2 ^ (bit_length k - 1)"
    by (rule power_increasing) simp_all
  then show ?thesis using bit_length_lower [OF k] by (rule order_trans)
qed

lemma round53_0 [simp]: "round53 0 = 0"
  by (simp add: round53_def)

lemma round53_le: "round53 k \<le> 2 * k"
proof (cases "k = 0")
  case True
  then show ?thesis by simp
next
  case False
  define s where "s = bit_length k - 53"
  have le: "2 ^ s \<le> k" using False shift_le [of k] by (simp add: s_def)
  define q where "q = k div 2 ^ s"
  define t :: nat where "t = 2 ^ s"
  have qt: "q * t \<le> k" by (simp add: q_def t_def)
  have "(q + 1) * t = q * t + t" by (simp add: add_mult_distrib)
  then have up: "(q + 1) * t \<le> 2 * k" using qt le by (simp add: t_def)
  have down: "q * t \<le> 2 * k" using qt by simp
  have "round53 k = (q + 1) * t \<or> round53 k = q * t"
    unfolding round53_def Let_def s_def [symmetric] q_def t_def by simp
  then show ?thesis using up down by auto
qed

lemma round53_pos: "0 < k \<Longrightarrow> 0 < round53 k"
proof -
  assume k: "0 < k"
  define s where "s = bit_length k - 53"
  have le: "2 ^ s \<le> k" using k shift_le [of k] by (simp add: s_def)
  then have "0 < k div 2 ^ s" by (simp add: div_greater_zero_iff)
  then show ?thesis
    unfolding round53_def Let_def s_def [symmetric] by simp
qed

lemma times_tenth_0 [simp]: "times_tenth 0 = 0"
  by (simp add: times_tenth_def)

lemma times_tenth_less: "0 < m \<Longrightarrow> times_tenth m < double_of_nat m"
proof -
  assume m: "0 < m"
  let ?M = "round53 m"
  have M: "0 < ?M" using m by (rule round53_pos)
  have "round53 (?M * 3602879701896397) \<le> 2 * (?M * 3602879701896397)" by (rule round53_le)
  also have "\<dots> < ?M * 2 ^ 55" using M by simp
  finally have "(of_nat (round53 (?M * 3602879701896397)) :: rat) < of_nat (?M * 2 ^ 55)"
    by (simp only: of_nat_less_iff)
  then show ?thesis
    by (simp add: times_tenth_def double_of_nat_def divide_less_eq)
qed

lemma text_rows_length [simp]: "length (text_rows proj) = length proj"
  by (simp add: text_rows_def Let_def)

lemma text_rows_blank:
  assumes "proj \<noteq> []" "Max (set proj) = 0"
  shows "text_rows proj = replicate (length proj) False"
proof -
  have z: "p = 0" if "p \<in> set proj" for p
    using Max_ge [of "set proj" p] that assms by simp
  have "map (\<lambda>p. (0::rat) < double_of_nat p) proj = map (\<lambda>p. False) proj"
  proof (intro map_cong refl)
    fix p assume "p \<in> set proj"
    then have "p = 0" by (rule z)
    then show "((0::rat) < double_of_nat p) = False" by (simp add: double_of_nat_def)
  qed
  then show ?thesis using assms by (simp add: text_rows_def map_replicate_const)
qed

lemma text_rows_ink:
  assumes "proj \<noteq> []" "0 < Max (set proj)"
  shows "True \<in> set (text_rows proj)"
proof -
  have "Max (set proj) \<in> set proj" using assms by (intro Max_in) simp_all
  moreover have "times_tenth (Max (set proj)) < double_of_nat (Max (set proj))"
    using assms by (intro times_tenth_less)
  ultimately show ?thesis by (auto simp: text_rows_def Let_def image_iff)
qed


subsection \<open>The segmenter in terms of runs\<close>

lemma projection_length [simp]: "length (projection luma otsu page) = height page"
  by (simp add: projection_def row_sums_def threshold_inv_def to_gray_def height_def Let_def)

lemma is_text_row_length [simp]: "length (is_text_row luma otsu page) = height page"
  by (simp add: is_text_row_def)

lemma to_gray_length [simp]: "length (to_gray luma page) = height page"
  by (simp add: to_gray_def height_def)

lemma gray_pixels: "concat (to_gray luma page) = [] \<longleftrightarrow> concat (pixels page) = []"
  by (simp add: to_gray_def)

lemma cv2_threshold_pixels:
  assumes "concat (pixels page) \<noteq> []"
  shows "cv2_threshold otsu (to_gray luma page) = Some (threshold_inv otsu (to_gray luma page))"
  unfolding cv2_threshold_def gray_pixels using assms by simp

lemma cv2_threshold_no_pixels:
  assumes "concat (pixels page) = []"
  shows "cv2_threshold otsu (to_gray luma page) = None"
  unfolding cv2_threshold_def gray_pixels using assms by simp

lemma segment_lines_pixels:
  assumes "concat (pixels page) \<noteq> []"
  shows "segment_lines luma otsu page =
           Inr (emit_lines page (height page) (is_text_row luma otsu page))"
proof -
  from assms have "pixels page \<noteq> []" by auto
  then have "length (projection luma otsu page) \<noteq> 0" by (simp add: height_def)
  then have "projection luma otsu page \<noteq> []" by (simp del: projection_length)
  then have "row_sums (threshold_inv otsu (to_gray luma page)) \<noteq> []"
    by (simp add: projection_def)
  then show ?thesis
    by (simp add: segment_lines_def cv2_threshold_pixels [OF assms] Let_def
        is_text_row_def projection_def)
qed

lemma segment_lines_runs:
  "concat (pixels page) \<noteq> [] \<Longrightarrow>
   segment_lines luma otsu page =
     Inr (map (\<lambda>(s, e). closed_line page (height page) s e) (text_runs (is_text_row luma otsu page)))"
  by (simp add: segment_lines_pixels emit_lines_runs)

lemma segment_lines_no_pixels:
  "concat (pixels page) = [] \<Longrightarrow> segment_lines luma otsu page = Inl AttributeError"
  by (simp add: segment_lines_def cv2_threshold_no_pixels Let_def)

lemma segment_lines_error:
  "segment_lines luma otsu page = Inl err \<Longrightarrow> err = AttributeError \<and> concat (pixels page) = []"
  using segment_lines_runs [of page luma otsu] segment_lines_no_pixels [of page luma otsu]
  by (cases "concat (pixels page) = []") simp_all

lemma segment_lines_no_columns:
  "segment_lines luma otsu page_no_columns = Inl AttributeError"
  by (simp add: segment_lines_no_pixels page_no_columns_def)

lemma segment_lines_no_rows:
  "segment_lines luma otsu page_no_rows = Inl AttributeError"
  by (simp add: segment_lines_no_pixels page_no_rows_def)

lemma page_has_pixels:
  assumes "well_formed page" and "1 \<le> height page" and "1 \<le> width page"
  shows "concat (pixels page) \<noteq> []"
proof -
  from assms(2) obtain row rows where rows: "pixels page = row # rows"
    by (cases "pixels page") (simp_all add: height_def)
  with assms(1) have "length row = width page" by (simp add: well_formed_def)
  with assms(3) have "row \<noteq> []" by auto
  with rows show ?thesis by simp
qed

lemma projection_pos_pixels:
  assumes "p \<in> set (projection luma otsu page)" and "0 < p"
  shows "concat (pixels page) \<noteq> []"
proof -
  from assms(1) obtain row where row: "row \<in> set (pixels page)"
    and p: "p = sum_list (map (\<lambda>g. if otsu (to_gray luma page) < g then 0 else 255)
                            (map (luma (mode page)) row)) mod 2 ^ 64"
    by (auto simp: projection_def row_sums_def threshold_inv_def to_gray_def Let_def)
  from p assms(2) have "row \<noteq> []" by auto
  with row show ?thesis by auto
qed

lemma flagged_row_pixels:
  assumes "i < height page" and "is_text_row luma otsu page ! i"
  shows "concat (pixels page) \<noteq> []"
proof -
  let ?proj = "projection luma otsu page"
  have i: "i < length ?proj" using assms(1) by simp
  have "(0::rat) \<le> times_tenth (Max (set ?proj))" by (simp add: times_tenth_def)
  also have "\<dots> < double_of_nat (?proj ! i)"
    using assms(2) i by (simp add: is_text_row_def text_rows_def Let_def)
  finally have "0 < ?proj ! i"
    by (cases "?proj ! i = 0") (simp_all add: double_of_nat_def)
  moreover have "?proj ! i \<in> set ?proj" using i by (rule nth_mem)
  ultimately show ?thesis by (rule projection_pos_pixels [rotated])
qed

subsection \<open>Crops and boxes\<close>

lemma crop_rows:
  assumes "well_formed page"
  shows "crop page (0, ya, int (width page), yb)
           = page\<lparr>pixels := take (nat (yb - ya)) (drop (nat ya) (pixels page))\<rparr>"
proof -
  have "map (\<lambda>row. take (width page) row) rows = rows" if "set rows \<subseteq> set (pixels page)" for rows
  proof (rule map_idI)
    fix row assume "row \<in> set rows"
    with that have "row \<in> set (pixels page)" by auto
    then have "length row = width page"
      using assms by (simp add: well_formed_def list_all_iff)
    then show "take (width page) row = row" by simp
  qed
  moreover have "set (take (nat (yb - ya)) (drop (nat ya) (pixels page))) \<subseteq> set (pixels page)"
    by (meson set_take_subset set_drop_subset subset_trans)
  ultimately show ?thesis by (simp add: crop_def)
qed

lemma closed_line_bbox:
  "bbox (closed_line page H s e) = (0, max 0 (int s - 3), int (width page), min (int H) (int e + 3))"
  by (simp add: closed_line_def pad_def Let_def)

lemma closed_line_box_ok:
  assumes "s < e" "e \<le> H"
  shows "case bbox (closed_line page H s e) of (left, upper, right, lower) \<Rightarrow>
           left = 0 \<and> 0 \<le> upper \<and> upper < lower \<and> lower \<le> int H \<and> right = int (width page)"
  using assms by (simp add: closed_line_bbox)

lemma text_runs_member_line:
  assumes "concat (pixels page) \<noteq> []" and "segment_lines luma otsu page = Inr rs" and "line \<in> set rs"
  shows "\<exists>s e. line = closed_line page (height page) s e \<and> s < e \<and> e \<le> height page"
proof -
  from assms obtain s e where "(s, e) \<in> set (text_runs (is_text_row luma otsu page))"
    and "line = closed_line page (height page) s e"
    by (auto simp: segment_lines_runs)
  then show ?thesis
    using text_runs_bounds [of s e "is_text_row luma otsu page"] by auto
qed

subsection \<open>Runs inside a flag sequence\<close>

lemma runs_from_open_run:
  "runs_from i (Some s) (replicate k True @ False # post) = (s, i + k) # runs_from (Suc (i + k)) None post"
  by (induction k arbitrary: i) simp_all

lemma runs_from_run:
  "0 < k \<Longrightarrow>
   runs_from i None (replicate k True @ False # post) = (i, i + k) # runs_from (Suc (i + k)) None post"
  using runs_from_open_run [of "Suc i" i "k - 1" post] by (cases k) simp_all

lemma runs_from_skip:
  "(if pre = [] then ob = None else \<not> last pre) \<Longrightarrow>
   set (runs_from (i + length pre) None rest) \<subseteq> set (runs_from i ob (pre @ rest))"
proof (induction pre arbitrary: i ob)
  case Nil
  then show ?case by simp
next
  case (Cons f pre)
  show ?case
  proof (cases "pre = []")
    case True
    with Cons.prems have "\<not> f" by simp
    then show ?thesis using True by (cases ob) auto
  next
    case False
    with Cons.prems have "if pre = [] then (if f then Some i else None) = None else \<not> last pre"
      and "if pre = [] then ob = None else \<not> last pre"
      and "if pre = [] then None = None else \<not> last pre" by simp_all
    note IH = this [THEN Cons.IH, of "Suc i"]
    show ?thesis
    proof (cases ob)
      case None
      then show ?thesis using IH(1) by simp
    next
      case (Some s)
      then show ?thesis using IH(2,3) by (cases f) auto
    qed
  qed
qed

lemma text_runs_closed_run:
  assumes "flags = pre @ replicate k True @ False # post" and "0 < k" and "pre = [] \<or> \<not> last pre"
  shows "(length pre, length pre + k) \<in> set (text_runs flags)"
proof -
  have "(length pre, length pre + k) \<in> set (runs_from (0 + length pre) None (replicate k True @ False # post))"
    using assms(2) by (simp add: runs_from_run)
  moreover have "if pre = [] then (None :: nat option) = None else \<not> last pre"
    using assms(3) by auto
  ultimately show ?thesis
    unfolding text_runs_def assms(1) using runs_from_skip by blast
qed

subsection \<open>From row indices to a split of the flag sequence\<close>

lemma flagged_block:
  assumes "e \<le> length flags" and "\<forall>i. s \<le> i \<and> i < e \<longrightarrow> flags ! i"
  shows "take (e - s) (drop s flags) = replicate (e - s) True"
proof (rule replicate_eqI)
  show "length (take (e - s) (drop s flags)) = e - s" using assms(1) by simp
next
  fix f assume "f \<in> set (take (e - s) (drop s flags))"
  then obtain j where j: "j < e - s" "j < length (drop s flags)" "f = take (e - s) (drop s flags) ! j"
    by (auto simp: in_set_conv_nth)
  then have "f = flags ! (s + j)" using assms(1) by simp
  moreover have "s \<le> s + j \<and> s + j < e" using j by simp
  ultimately show "f = True" using assms(2) by blast
qed

lemma split_at_run:
  assumes "s < e" "e < length flags" and "\<forall>i. s \<le> i \<and> i < e \<longrightarrow> flags ! i" and "\<not> flags ! e"
  shows "flags = take s flags @ replicate (e - s) True @ False # drop (Suc e) flags"
proof -
  have "flags = take s flags @ drop s flags" by simp
  also have "drop s flags = take (e - s) (drop s flags) @ drop (e - s) (drop s flags)"
    by (rule append_take_drop_id [symmetric])
  also have "take (e - s) (drop s flags) = replicate (e - s) True"
    using assms by (intro flagged_block) simp_all
  also have "drop (e - s) (drop s flags) = drop e flags" using assms(1) by simp
  also have "drop e flags = flags ! e # drop (Suc e) flags"
    using assms(2) by (simp add: Cons_nth_drop_Suc)
  finally show ?thesis using assms(4) by simp
qed

lemma before_run:
  assumes "s \<le> length flags" and "s = 0 \<or> \<not> flags ! (s - 1)"
  shows "take s flags = [] \<or> \<not> last (take s flags)"
proof (cases "s = 0")
  case True
  then show ?thesis by simp
next
  case False
  then have "take s flags \<noteq> []" and "length (take s flags) = s"
    using assms(1) by auto
  then have "last (take s flags) = take s flags ! (s - 1)"
    by (simp add: last_conv_nth)
  also have "\<dots> = flags ! (s - 1)" using False by simp
  finally have "last (take s flags) = flags ! (s - 1)" .
  then show ?thesis using assms(2) False by simp
qed

lemma closed_run_member:
  assumes "s < e" "e < length flags" and "\<forall>i. s \<le> i \<and> i < e \<longrightarrow> flags ! i" and "\<not> flags ! e"
    and "s = 0 \<or> \<not> flags ! (s - 1)"
  shows "(s, e) \<in> set (text_runs flags)"
proof -
  have "(length (take s flags), length (take s flags) + (e - s)) \<in> set (text_runs flags)"
  proof (rule text_runs_closed_run)
    show "flags = take s flags @ replicate (e - s) True @ False # drop (Suc e) flags"
      using assms(1-4) by (rule split_at_run)
    show "0 < e - s" using assms(1) by simp
    show "take s flags = [] \<or> \<not> last (take s flags)"
      using assms(1,2,5) by (intro before_run) simp_all
  qed
  then show ?thesis using assms(1,2) by simp
qed

subsection \<open>The state of the scan at the end of a run\<close>

lemma scan_in_line:
  "fs \<noteq> [] \<Longrightarrow> in_line (foldl (scan_step page H) st (enumerate n fs)) = last fs"
proof (induction fs arbitrary: st n)
  case Nil
  then show ?case by simp
next
  case (Cons f fs)
  show ?case
  proof (cases "fs = []")
    case True
    then show ?thesis by (cases f) simp_all
  next
    case False
    then show ?thesis using Cons.IH by simp
  qed
qed

lemma scan_flagged:
  "foldl (scan_step page H) st (enumerate n (replicate k True)) =
     (if in_line st \<or> k = 0 then st else st\<lparr>in_line := True, start_row := n\<rparr>)"
  by (induction k arbitrary: st n) simp_all

lemma scan_open_tail:
  assumes "0 < k" and "pre = [] \<or> \<not> last pre"
  shows "in_line (scan_rows page H (pre @ replicate k True))
         \<and> start_row (scan_rows page H (pre @ replicate k True)) = length pre
         \<and> lines (scan_rows page H (pre @ replicate k True)) = lines (scan_rows page H pre)"
proof -
  let ?st = "foldl (scan_step page H) scan_init (enumerate 0 pre)"
  have "\<not> in_line ?st"
  proof (cases "pre = []")
    case True
    then show ?thesis by (simp add: scan_init_def)
  next
    case False
    then show ?thesis using assms(2) by (simp add: scan_in_line)
  qed
  then show ?thesis
    using assms(1) by (simp add: scan_rows_def enumerate_append_eq scan_flagged)
qed

subsection \<open>Lines as rows of the page\<close>

lemma closed_line_rows:
  assumes "well_formed page"
  shows "closed_line page H s e =
     \<lparr>image_of = page\<lparr>pixels := take (nat (min (int H) (int e + 3) - max 0 (int s - 3)))
                                    (drop (nat (max 0 (int s - 3))) (pixels page))\<rparr>,
      bbox = (0, max 0 (int s - 3), int (width page), min (int H) (int e + 3))\<rparr>"
  by (simp add: closed_line_def pad_def Let_def crop_rows [OF assms])

lemma tail_line_rows:
  assumes "well_formed page"
  shows "tail_line page H s =
     \<lparr>image_of = page\<lparr>pixels := take (nat (int H - max 0 (int s - 3)))
                                    (drop (nat (max 0 (int s - 3))) (pixels page))\<rparr>,
      bbox = (0, max 0 (int s - 3), int (width page), int H)\<rparr>"
  by (simp add: tail_line_def pad_def Let_def crop_rows [OF assms])

lemma open_tail_split:
  assumes "s < length flags" and "\<forall>i. s \<le> i \<and> i < length flags \<longrightarrow> flags ! i"
  shows "flags = take s flags @ replicate (length flags - s) True"
proof -
  have "take (length flags - s) (drop s flags) = replicate (length flags - s) True"
    using assms(2) by (intro flagged_block) simp_all
  then have "drop s flags = replicate (length flags - s) True" by simp
  then show ?thesis by (metis append_take_drop_id)
qed

subsection \<open>Order of the lines, and the mask\<close>

lemma upper_of_closed_line: "upper_of (closed_line page H s e) = max 0 (int s - 3)"
  by (simp add: upper_of_def closed_line_bbox)

lemma text_runs_ordered:
  "sorted_wrt (\<lambda>a b. fst a < snd a \<and> snd a < fst b \<and> fst b < snd b) (text_runs flags)"
proof -
  have "sorted_wrt (\<lambda>(s, e) (s', e'). e < s') (text_runs flags)" by (rule text_runs_sorted)
  then show ?thesis
  proof (rule sorted_wrt_mono_rel [rotated])
    fix x y assume x: "x \<in> set (text_runs flags)" and y: "y \<in> set (text_runs flags)"
      and xy: "(case x of (s, e) \<Rightarrow> \<lambda>(s', e'). e < s') y"
    have "fst x < snd x" using text_runs_bounds [of "fst x" "snd x" flags] x by simp
    moreover have "fst y < snd y" using text_runs_bounds [of "fst y" "snd y" flags] y by simp
    moreover have "snd x < fst y" using xy by (cases x; cases y) simp
    ultimately show "fst x < snd x \<and> snd x < fst y \<and> fst y < snd y" by simp
  qed
qed

lemma mask_width:
  assumes "well_formed page" and "1 \<le> height page"
  shows "length (hd (threshold_inv otsu (to_gray luma page))) = width page"
proof -
  have ne: "pixels page \<noteq> []" using assms(2) by (auto simp: height_def)
  then have "hd (pixels page) \<in> set (pixels page)" by simp
  then have "length (hd (pixels page)) = width page"
    using assms(1) by (simp add: well_formed_def list_all_iff)
  then show ?thesis using ne by (simp add: threshold_inv_def to_gray_def Let_def hd_map)
qed

lemma mask_height: "length (threshold_inv otsu (to_gray luma page)) = height page"
  by (simp add: threshold_inv_def to_gray_def Let_def height_def)

subsection \<open>Blank and inked flag sequences\<close>

lemma runs_from_blank: "runs_from i None (replicate n False) = []"
  by (induction n arbitrary: i) simp_all

lemma runs_from_open: "runs_from i (Some s) fs \<noteq> []"
  by (induction fs arbitrary: i) simp_all

lemma runs_from_ink: "True \<in> set fs \<Longrightarrow> runs_from i ob fs \<noteq> []"
proof (induction fs arbitrary: i ob)
  case Nil
  then show ?case by simp
next
  case (Cons f fs)
  show ?case
  proof (cases ob)
    case None
    then show ?thesis using Cons by (cases f) (auto simp: runs_from_open)
  next
    case (Some s)
    then show ?thesis by (simp add: runs_from_open)
  qed
qed

subsection \<open>The sample inputs evaluated\<close>

lemma bit_length_numeral:
  "bit_length (Suc 0) = 1"
  "bit_length (numeral k) = Suc (bit_length (numeral k div 2))"
  by (simp_all add: bit_length.simps)

lemmas flag_defs =
  is_text_row_def text_rows_def projection_def row_sums_def threshold_inv_def to_gray_def
  luma_id_def otsu_zero_def times_tenth_def double_of_nat_def round53_def bit_length_numeral

lemma projection_blank: "projection luma_id otsu_zero page_blank = [0, 0]"
  by (simp add: projection_def row_sums_def threshold_inv_def to_gray_def luma_id_def
      otsu_zero_def page_blank_def)

lemma projection_two_lines:
  "projection luma_id otsu_zero page_two_lines = [0, 0, 0, 0, 0, 510, 255, 0, 0, 0, 255, 510]"
  by (simp add: projection_def row_sums_def threshold_inv_def to_gray_def luma_id_def
      otsu_zero_def page_two_lines_def)

lemma flags_two_lines:
  "is_text_row luma_id otsu_zero page_two_lines =
     [False, False, False, False, False, True, True, False, False, False, True, True]"
  by (simp add: flag_defs page_two_lines_def)

lemma flags_close_lines:
  "is_text_row luma_id otsu_zero page_close_lines = [True, False, True, False]"
  by (simp add: flag_defs page_close_lines_def)

subsection \<open>Recognition\<close>

lemma recognize_lines_filter:
  "recognize_lines r ls = map (line_record r) (filter (\<lambda>line. r (image_of line) \<noteq> []) ls)"
  by (induction ls) (simp_all add: line_record_def Let_def)

lemma recognize_lines_boxes:
  "map (\<lambda>d. ((x1 (bbox_d d), y1 (bbox_d d), x2 (bbox_d d), y2 (bbox_d d)), text_d d))
       (recognize_lines r ls)
   = map (\<lambda>line. (bbox line, r (image_of line))) (filter (\<lambda>line. r (image_of line) \<noteq> []) ls)"
  by (induction ls) (auto simp: Let_def split: prod.splits)

lemma ensure_rgb_mode [simp]: "mode (ensure_rgb to_rgb img) = ''RGB''"
  by (simp add: ensure_rgb_def convert_rgb_def)

lemma ensure_rgb_height [simp]: "height (ensure_rgb to_rgb img) = height img"
  by (simp add: ensure_rgb_def convert_rgb_def height_def)

lemma recognize_line_cong:
  "(\<forall>img. mode img = ''RGB'' \<longrightarrow> decode' img = decode img) \<Longrightarrow>
   recognize_line to_rgb decode' = recognize_line to_rgb decode"
  by (rule ext) (simp add: recognize_line_def)

lemma ocr_from_cong:
  "recognize_line to_rgb decode' = recognize_line to_rgb decode \<Longrightarrow>
   ocr_from luma otsu to_rgb decode' i pages = ocr_from luma otsu to_rgb decode i pages"
  by (induction pages arbitrary: i) (simp_all split: sum.splits)

lemma ocr_from_pages:
  "list_all (\<lambda>p. concat (pixels p) \<noteq> []) pages \<Longrightarrow>
   \<exists>out. ocr_from luma otsu to_rgb decode i pages = Inr out \<and> length out = length pages
     \<and> (\<forall>k < length pages. page_d (out ! k) = i + int k
          \<and> (\<exists>ls. segment_lines luma otsu (pages ! k) = Inr ls
                \<and> lines_d (out ! k) = recognize_lines (recognize_line to_rgb decode) ls))"
proof (induction pages arbitrary: i)
  case Nil
  then show ?case by simp
next
  case (Cons page pages)
  then have h: "concat (pixels page) \<noteq> []"
    and rest: "list_all (\<lambda>p. concat (pixels p) \<noteq> []) pages" by simp_all
  from segment_lines_runs [OF h, of luma otsu] obtain ls
    where ls: "segment_lines luma otsu page = Inr ls" by blast
  from Cons.IH [OF rest, of "i + 1"] obtain out
    where out: "ocr_from luma otsu to_rgb decode (i + 1) pages = Inr out" "length out = length pages"
      and each: "\<And>k. k < length pages \<Longrightarrow> page_d (out ! k) = i + 1 + int k
          \<and> (\<exists>ls. segment_lines luma otsu (pages ! k) = Inr ls
                \<and> lines_d (out ! k) = recognize_lines (recognize_line to_rgb decode) ls)"
    by blast
  let ?first = "\<lparr>page_d = i, lines_d = recognize_lines (recognize_line to_rgb decode) ls\<rparr>"
  have eq: "ocr_from luma otsu to_rgb decode i (page # pages) = Inr (?first # out)"
    by (simp add: ls out)
  have "page_d ((?first # out) ! k) = i + int k
          \<and> (\<exists>ls. segment_lines luma otsu ((page # pages) ! k) = Inr ls
                \<and> lines_d ((?first # out) ! k) = recognize_lines (recognize_line to_rgb decode) ls)"
    if "k < length (page # pages)" for k
  proof (cases k)
    case 0
    then show ?thesis by (simp add: ls)
  next
    case (Suc j)
    then have "j < length pages" using that by simp
    from each [OF this] show ?thesis using Suc by simp
  qed
  with eq out(2) show ?case by simp
qed

lemma pages_have_pixels:
  "list_all (\<lambda>p. well_formed p \<and> 1 \<le> height p \<and> 1 \<le> width p) pages \<Longrightarrow>
   list_all (\<lambda>p. concat (pixels p) \<noteq> []) pages"
  unfolding list_all_iff using page_has_pixels by blast

lemma ocr_from_error:
  "segment_lines luma otsu page = Inl err \<Longrightarrow>
   ocr_from luma otsu to_rgb decode i (page # pages) = Inl err"
  by simp

subsection \<open>The sample pages read\<close>

lemma lines_two_lines:
  "segment_lines luma_id otsu_zero page_two_lines =
     Inr [\<lparr>image_of = page_two_lines\<lparr>pixels := take 8 (drop 2 (pixels page_two_lines))\<rparr>,
           bbox = (0, 2, 2, 10)\<rparr>,
          \<lparr>image_of = page_two_lines\<lparr>pixels := drop 7 (pixels page_two_lines)\<rparr>,
           bbox = (0, 7, 2, 12)\<rparr>]"
proof -
  have h: "concat (pixels page_two_lines) \<noteq> []" by (simp add: page_two_lines_def)
  have wf: "well_formed page_two_lines" by (simp add: well_formed_def page_two_lines_def)
  show ?thesis
    by (simp add: segment_lines_runs [OF h] flags_two_lines text_runs_def
        closed_line_rows [OF wf] height_def)
       (simp add: page_two_lines_def)
qed

lemma lines_blank: "segment_lines luma_id otsu_zero page_blank = Inr []"
proof -
  have h: "concat (pixels page_blank) \<noteq> []" by (simp add: page_blank_def)
  have "is_text_row luma_id otsu_zero page_blank = [False, False]"
    by (simp add: flag_defs page_blank_def)
  then show ?thesis by (simp add: segment_lines_runs [OF h] text_runs_def)
qed

lemma read_two_lines:
  "recognize_line rgb_of_grey decode_sample
     (page_two_lines\<lparr>pixels := take 8 (drop 2 (pixels page_two_lines))\<rparr>) = ''line one''"
  "recognize_line rgb_of_grey decode_sample
     (page_two_lines\<lparr>pixels := drop 7 (pixels page_two_lines)\<rparr>) = []"
  by (simp_all add: recognize_line_def decode_sample_def strip_def is_space_def)
     (simp_all add: height_def page_two_lines_def)

lemma ocr_two_lines:
  "ocr_pages luma_id otsu_zero rgb_of_grey decode_sample [page_two_lines] =
     Inr [\<lparr>page_d = 1,
           lines_d = [\<lparr>bbox_d = \<lparr>x1 = 0, y1 = 2, x2 = 2, y2 = 10\<rparr>, text_d = ''line one''\<rparr>]\<rparr>]"
  by (simp add: ocr_pages_def lines_two_lines read_two_lines)

lemma ocr_two_pages:
  "ocr_pages luma_id otsu_zero rgb_of_grey decode_sample [page_two_lines, page_blank] =
     Inr [\<lparr>page_d = 1,
           lines_d = [\<lparr>bbox_d = \<lparr>x1 = 0, y1 = 2, x2 = 2, y2 = 10\<rparr>, text_d = ''line one''\<rparr>]\<rparr>,
          \<lparr>page_d = 2, lines_d = []\<rparr>]"
  by (simp add: ocr_pages_def lines_two_lines lines_blank read_two_lines)

lemma sample_pages_sized:
  "list_all (\<lambda>p. well_formed p \<and> 1 \<le> height p \<and> 1 \<le> width p) [page_two_lines, page_blank]"
  by (simp add: well_formed_def height_def page_two_lines_def page_blank_def)

lemma decode_other_rgb: "\<forall>img. mode img = ''RGB'' \<longrightarrow> decode_other img = decode_sample img"
  by (simp add: decode_other_def)

section \<open>The claims\<close>

text \<open>
  C1. In a well-formed page, let rows \<open>s..<e\<close> be flagged, row \<open>e\<close> be a blank row of the page,
  and row \<open>s\<close> be the first row or follow a blank row; a run of one row is \<open>e = s + 1\<close>.
  Then \<open>segment_lines\<close> returns a line whose box is
  \<open>(0, max 0 (s - 3), W, min H (e + 3))\<close> and whose image is the rows \<open>y1..<y2\<close> of the page
  at full width.
\<close>

theorem interior_run_emits_padded_line:
  assumes "well_formed page"
    and "s < e" and "e < height page"
    and "\<forall>i. s \<le> i \<and> i < e \<longrightarrow> is_text_row luma otsu page ! i"
    and "\<not> is_text_row luma otsu page ! e"
    and "s = 0 \<or> \<not> is_text_row luma otsu page ! (s - 1)"
  shows "\<exists>rs. segment_lines luma otsu page = Inr rs \<and>
           \<lparr>image_of = page\<lparr>pixels :=
                take (nat (min (int (height page)) (int e + 3) - max 0 (int s - 3)))
                     (drop (nat (max 0 (int s - 3))) (pixels page))\<rparr>,
            bbox = (0, max 0 (int s - 3), int (width page), min (int (height page)) (int e + 3))\<rparr>
           \<in> set rs"
proof -
  let ?flags = "is_text_row luma otsu page"
  have "s < height page" using assms(2,3) by simp
  moreover have "?flags ! s" using assms(2,4) by simp
  ultimately have h: "concat (pixels page) \<noteq> []" by (rule flagged_row_pixels)
  have "(s, e) \<in> set (text_runs ?flags)"
    using assms(2-6) by (intro closed_run_member) simp_all
  then have "closed_line page (height page) s e
               \<in> set (map (\<lambda>(s, e). closed_line page (height page) s e) (text_runs ?flags))"
    by force
  then show ?thesis
    by (simp add: segment_lines_runs [OF h] closed_line_rows [OF assms(1)])
qed

theorem interior_run_emits_padded_line_witness:
  "well_formed page_two_lines \<and> (5::nat) < 7 \<and> 7 < height page_two_lines
   \<and> is_text_row luma_id otsu_zero page_two_lines ! 5
   \<and> is_text_row luma_id otsu_zero page_two_lines ! 6
   \<and> \<not> is_text_row luma_id otsu_zero page_two_lines ! 7
   \<and> \<not> is_text_row luma_id otsu_zero page_two_lines ! 4
   \<and> (\<exists>rs. segment_lines luma_id otsu_zero page_two_lines = Inr rs \<and>
         \<lparr>image_of = page_two_lines\<lparr>pixels := take 8 (drop 2 (pixels page_two_lines))\<rparr>,
          bbox = (0, 2, 2, 10)\<rparr> \<in> set rs)"
proof -
  have wf: "well_formed page_two_lines" by (simp add: well_formed_def page_two_lines_def)
  have se: "(5::nat) < 7" by simp
  have eh: "7 < height page_two_lines" by (simp add: height_def page_two_lines_def)
  have run: "\<forall>i. 5 \<le> i \<and> i < 7 \<longrightarrow> is_text_row luma_id otsu_zero page_two_lines ! i"
  proof (intro allI impI)
    fix i :: nat assume "5 \<le> i \<and> i < 7"
    then have "i = 5 \<or> i = 6" by arith
    then show "is_text_row luma_id otsu_zero page_two_lines ! i"
      by (auto simp: flags_two_lines)
  qed
  have stop: "\<not> is_text_row luma_id otsu_zero page_two_lines ! 7"
    by (simp add: flags_two_lines)
  have start: "(5::nat) = 0 \<or> \<not> is_text_row luma_id otsu_zero page_two_lines ! (5 - 1)"
    by (simp add: flags_two_lines)
  have "\<exists>rs. segment_lines luma_id otsu_zero page_two_lines = Inr rs \<and>
         \<lparr>image_of = page_two_lines\<lparr>pixels := take 8 (drop 2 (pixels page_two_lines))\<rparr>,
          bbox = (0, 2, 2, 10)\<rparr> \<in> set rs"
    using interior_run_emits_padded_line [OF wf se eh run stop start]
    by (simp add: height_def page_two_lines_def)
  with wf se eh stop show ?thesis by (simp add: flags_two_lines)
qed

text \<open>
  C2. For a page of height \<open>H \<ge> 1\<close> and width \<open>W \<ge> 1\<close>, \<open>segment_lines\<close> returns, and every
  line it returns has a bounding box with \<open>x1 = 0\<close>, \<open>0 \<le> y1 < y2 \<le> H\<close> and \<open>x2 = W\<close>; no
  box has \<open>y1 \<ge> y2\<close>.
\<close>

theorem segment_lines_bbox_in_bounds:
  assumes "well_formed page" and "1 \<le> height page" and "1 \<le> width page"
  shows "\<exists>rs. segment_lines luma otsu page = Inr rs \<and>
           (\<forall>line \<in> set rs. case bbox line of (left, upper, right, lower) \<Rightarrow>
              left = 0 \<and> 0 \<le> upper \<and> upper < lower \<and> lower \<le> int (height page)
              \<and> right = int (width page))"
proof -
  let ?rs = "map (\<lambda>(s, e). closed_line page (height page) s e) (text_runs (is_text_row luma otsu page))"
  have px: "concat (pixels page) \<noteq> []" using assms by (rule page_has_pixels)
  have rs: "segment_lines luma otsu page = Inr ?rs"
    using px by (rule segment_lines_runs)
  have "\<forall>line \<in> set ?rs. case bbox line of (left, upper, right, lower) \<Rightarrow>
          left = 0 \<and> 0 \<le> upper \<and> upper < lower \<and> lower \<le> int (height page)
          \<and> right = int (width page)"
  proof
    fix line assume "line \<in> set ?rs"
    from text_runs_member_line [OF px rs this] obtain s e
      where "line = closed_line page (height page) s e" "s < e" "e \<le> height page"
      by blast
    then show "case bbox line of (left, upper, right, lower) \<Rightarrow>
          left = 0 \<and> 0 \<le> upper \<and> upper < lower \<and> lower \<le> int (height page)
          \<and> right = int (width page)"
      using closed_line_box_ok [of s e "height page" page] by simp
  qed
  with rs show ?thesis by (intro exI conjI)
qed

theorem segment_lines_bbox_in_bounds_witness:
  "well_formed page_two_lines \<and> 1 \<le> height page_two_lines \<and> 1 \<le> width page_two_lines \<and>
   (\<exists>rs. segment_lines luma_id otsu_zero page_two_lines = Inr rs \<and>
      (\<forall>line \<in> set rs. case bbox line of (left, upper, right, lower) \<Rightarrow>
         left = 0 \<and> 0 \<le> upper \<and> upper < lower \<and> lower \<le> int (height page_two_lines)
         \<and> right = int (width page_two_lines)))"
proof -
  have wf: "well_formed page_two_lines" by (simp add: well_formed_def page_two_lines_def)
  have h: "1 \<le> height page_two_lines" by (simp add: height_def page_two_lines_def)
  have w: "1 \<le> width page_two_lines" by (simp add: page_two_lines_def)
  show ?thesis
    using wf h w segment_lines_bbox_in_bounds [OF wf h w, of luma_id otsu_zero] by simp
qed

text \<open>
  C3. In a well-formed page, let rows \<open>s..<H\<close> be flagged up to the last row of the page
  and row \<open>s\<close> be the first row or follow a blank row. Then \<open>segment_lines\<close> returns the
  lines that the loop appended followed by exactly one more line, whose box is
  \<open>(0, max 0 (s - 3), W, H)\<close>: its lower edge is \<open>H\<close>, and its image is the rows of the page
  from \<open>y1\<close> on.
\<close>

theorem open_tail_emits_unpadded_line:
  assumes "well_formed page"
    and "s < height page"
    and "\<forall>i. s \<le> i \<and> i < height page \<longrightarrow> is_text_row luma otsu page ! i"
    and "s = 0 \<or> \<not> is_text_row luma otsu page ! (s - 1)"
  shows "segment_lines luma otsu page =
           Inr (lines (scan_rows page (height page) (is_text_row luma otsu page)) @
                [\<lparr>image_of = page\<lparr>pixels := drop (nat (max 0 (int s - 3))) (pixels page)\<rparr>,
                  bbox = (0, max 0 (int s - 3), int (width page), int (height page))\<rparr>])"
proof -
  let ?flags = "is_text_row luma otsu page"
  let ?H = "height page"
  have len: "length ?flags = ?H" by simp
  have split: "?flags = take s ?flags @ replicate (?H - s) True"
    using open_tail_split [of s ?flags] assms(2,3) by simp
  have pre: "take s ?flags = [] \<or> \<not> last (take s ?flags)"
    using assms(2,4) by (intro before_run) simp_all
  have k: "0 < ?H - s" using assms(2) by simp
  from scan_open_tail [OF k pre, of page ?H]
  have st: "in_line (scan_rows page ?H ?flags)" "start_row (scan_rows page ?H ?flags) = s"
    using split assms(2) by simp_all
  have "?flags ! s" using assms(2,3) by simp
  with assms(2) have px: "concat (pixels page) \<noteq> []" by (rule flagged_row_pixels)
  have "nat (int ?H - max 0 (int s - 3)) \<ge> length (drop (nat (max 0 (int s - 3))) (pixels page))"
    by (simp add: height_def)
  then have "take (nat (int ?H - max 0 (int s - 3))) (drop (nat (max 0 (int s - 3))) (pixels page))
      = drop (nat (max 0 (int s - 3))) (pixels page)"
    by (rule take_all)
  then show ?thesis
    using st
    by (simp add: segment_lines_pixels [OF px] emit_lines_def close_tail_def
        tail_line_rows [OF assms(1)])
qed

theorem open_tail_emits_unpadded_line_witness:
  "well_formed page_two_lines \<and> 10 < height page_two_lines \<and> height page_two_lines = 12
   \<and> is_text_row luma_id otsu_zero page_two_lines ! 10
   \<and> is_text_row luma_id otsu_zero page_two_lines ! 11
   \<and> \<not> is_text_row luma_id otsu_zero page_two_lines ! 9
   \<and> segment_lines luma_id otsu_zero page_two_lines =
       Inr (lines (scan_rows page_two_lines (height page_two_lines)
                     (is_text_row luma_id otsu_zero page_two_lines)) @
            [\<lparr>image_of = page_two_lines\<lparr>pixels := drop 7 (pixels page_two_lines)\<rparr>,
              bbox = (0, 7, 2, 12)\<rparr>])"
proof -
  have wf: "well_formed page_two_lines" by (simp add: well_formed_def page_two_lines_def)
  have h: "height page_two_lines = 12" by (simp add: height_def page_two_lines_def)
  have sh: "10 < height page_two_lines" by (simp add: h)
  have run: "\<forall>i. 10 \<le> i \<and> i < height page_two_lines
               \<longrightarrow> is_text_row luma_id otsu_zero page_two_lines ! i"
  proof (intro allI impI)
    fix i :: nat assume "10 \<le> i \<and> i < height page_two_lines"
    then have "i = 10 \<or> i = 11" using h by arith
    then show "is_text_row luma_id otsu_zero page_two_lines ! i"
      by (auto simp: flags_two_lines)
  qed
  have start: "(10::nat) = 0 \<or> \<not> is_text_row luma_id otsu_zero page_two_lines ! (10 - 1)"
    by (simp add: flags_two_lines)
  have "segment_lines luma_id otsu_zero page_two_lines =
       Inr (lines (scan_rows page_two_lines (height page_two_lines)
                     (is_text_row luma_id otsu_zero page_two_lines)) @
            [\<lparr>image_of = page_two_lines\<lparr>pixels := drop 7 (pixels page_two_lines)\<rparr>,
              bbox = (0, 7, 2, 12)\<rparr>])"
    using open_tail_emits_unpadded_line [OF wf sh run start]
    by (simp add: h) (simp add: page_two_lines_def)
  with wf sh h show ?thesis by (simp add: flags_two_lines)
qed

text \<open>
  C4. When the projection of a page of height \<open>H \<ge> 1\<close> and width \<open>W \<ge> 1\<close> has maximum 0,
  the threshold is 0, no row density exceeds it, every flag is false, and \<open>segment_lines\<close>
  returns the empty list, not an error.
\<close>

theorem blank_projection_gives_no_lines:
  assumes "well_formed page" and "1 \<le> height page" and "1 \<le> width page"
    and "Max (set (projection luma otsu page)) = 0"
  shows "times_tenth (Max (set (projection luma otsu page))) = 0
         \<and> is_text_row luma otsu page = replicate (height page) False
         \<and> segment_lines luma otsu page = Inr []"
proof -
  have px: "concat (pixels page) \<noteq> []" using assms(1-3) by (rule page_has_pixels)
  have ne: "projection luma otsu page \<noteq> []"
    using assms(2) projection_length [of luma otsu page]
    by (metis One_nat_def length_0_conv not_less_eq_eq le0)
  have flags: "is_text_row luma otsu page = replicate (height page) False"
    using text_rows_blank [OF ne assms(4)] by (simp add: is_text_row_def)
  have "segment_lines luma otsu page = Inr []"
    by (simp add: segment_lines_runs [OF px] flags text_runs_def runs_from_blank)
  with flags assms(4) show ?thesis by simp
qed

theorem blank_projection_gives_no_lines_witness:
  "well_formed page_blank \<and> 1 \<le> height page_blank \<and> 1 \<le> width page_blank
   \<and> Max (set (projection luma_id otsu_zero page_blank)) = 0
   \<and> segment_lines luma_id otsu_zero page_blank = Inr []"
proof -
  have wf: "well_formed page_blank" by (simp add: well_formed_def page_blank_def)
  have h: "1 \<le> height page_blank" by (simp add: height_def page_blank_def)
  have w: "1 \<le> width page_blank" by (simp add: page_blank_def)
  have m: "Max (set (projection luma_id otsu_zero page_blank)) = 0"
    by (simp add: projection_blank)
  show ?thesis using wf h w m blank_projection_gives_no_lines [OF wf h w m] by simp
qed

text \<open>
  C5, as the code has it. For a page of height \<open>H \<ge> 1\<close> and width \<open>W \<ge> 1\<close>, the lines
  returned are, in order, the lines of the runs of flagged rows; of two runs the earlier one ends strictly
  before the later one begins; and of two lines the earlier one's \<open>y1\<close> is at most the
  later one's, and smaller when the later one's \<open>y1\<close> is positive. Two runs that both
  begin in the first four rows give two lines with \<open>y1 = 0\<close>, as on the page of the
  counterexample.
\<close>

theorem lines_follow_separated_runs:
  assumes "well_formed page" and "1 \<le> height page" and "1 \<le> width page"
  shows "\<exists>rs runs. segment_lines luma otsu page = Inr rs
           \<and> runs = text_runs (is_text_row luma otsu page)
           \<and> rs = map (\<lambda>(s, e). closed_line page (height page) s e) runs
           \<and> sorted_wrt (\<lambda>a b. fst a < snd a \<and> snd a < fst b \<and> fst b < snd b) runs
           \<and> sorted_wrt (\<lambda>a b. upper_of a \<le> upper_of b
                                 \<and> (0 < upper_of b \<longrightarrow> upper_of a < upper_of b)) rs"
proof -
  let ?runs = "text_runs (is_text_row luma otsu page)"
  let ?line = "\<lambda>(s, e). closed_line page (height page) s e"
  have px: "concat (pixels page) \<noteq> []" using assms by (rule page_has_pixels)
  have ord: "sorted_wrt (\<lambda>a b. fst a < snd a \<and> snd a < fst b \<and> fst b < snd b) ?runs"
    by (rule text_runs_ordered)
  have "sorted_wrt (\<lambda>x y. upper_of (?line x) \<le> upper_of (?line y)
                        \<and> (0 < upper_of (?line y) \<longrightarrow> upper_of (?line x) < upper_of (?line y))) ?runs"
    using ord
  proof (rule sorted_wrt_mono_rel [rotated])
    fix x y :: "nat \<times> nat"
    assume "fst x < snd x \<and> snd x < fst y \<and> fst y < snd y"
    then show "upper_of (?line x) \<le> upper_of (?line y)
                 \<and> (0 < upper_of (?line y) \<longrightarrow> upper_of (?line x) < upper_of (?line y))"
      by (cases x; cases y) (auto simp: upper_of_closed_line)
  qed
  then have "sorted_wrt (\<lambda>a b. upper_of a \<le> upper_of b
                                 \<and> (0 < upper_of b \<longrightarrow> upper_of a < upper_of b)) (map ?line ?runs)"
    by (simp add: sorted_wrt_map)
  with ord segment_lines_runs [OF px, of luma otsu] show ?thesis by blast
qed

theorem lines_follow_separated_runs_witness:
  "well_formed page_two_lines \<and> 1 \<le> height page_two_lines \<and> 1 \<le> width page_two_lines \<and>
   (\<exists>rs runs. segment_lines luma_id otsu_zero page_two_lines = Inr rs
      \<and> runs = text_runs (is_text_row luma_id otsu_zero page_two_lines)
      \<and> rs = map (\<lambda>(s, e). closed_line page_two_lines (height page_two_lines) s e) runs
      \<and> sorted_wrt (\<lambda>a b. fst a < snd a \<and> snd a < fst b \<and> fst b < snd b) runs
      \<and> sorted_wrt (\<lambda>a b. upper_of a \<le> upper_of b
                            \<and> (0 < upper_of b \<longrightarrow> upper_of a < upper_of b)) rs)"
proof -
  have wf: "well_formed page_two_lines" by (simp add: well_formed_def page_two_lines_def)
  have h: "1 \<le> height page_two_lines" by (simp add: height_def page_two_lines_def)
  have w: "1 \<le> width page_two_lines" by (simp add: page_two_lines_def)
  show ?thesis
    using wf h w lines_follow_separated_runs [OF wf h w, of luma_id otsu_zero] by blast
qed

theorem close_lines_equal_upper_edge:
  "segment_lines luma_id otsu_zero page_close_lines =
     Inr [\<lparr>image_of = page_close_lines, bbox = (0, 0, 1, 4)\<rparr>,
          \<lparr>image_of = page_close_lines, bbox = (0, 0, 1, 4)\<rparr>]
   \<and> \<not> upper_of \<lparr>image_of = page_close_lines, bbox = (0, 0, 1, 4)\<rparr>
       < upper_of \<lparr>image_of = page_close_lines, bbox = (0, 0, 1, 4)\<rparr>"
proof -
  have h: "concat (pixels page_close_lines) \<noteq> []" by (simp add: page_close_lines_def)
  have wf: "well_formed page_close_lines" by (simp add: well_formed_def page_close_lines_def)
  have "page_close_lines\<lparr>pixels := take 4 (pixels page_close_lines)\<rparr> = page_close_lines"
    by (simp add: page_close_lines_def)
  then show ?thesis
    by (simp add: segment_lines_runs [OF h] flags_close_lines text_runs_def
        closed_line_rows [OF wf] height_def)
       (simp add: page_close_lines_def)
qed

text \<open>
  C6, as the code has it. A line whose text is empty after stripping is left out of the
  line records of its page, and its bounding box with it: on the page of the
  counterexample the segmenter returns two lines and the record of the page holds one
  box. For pages of height \<open>H \<ge> 1\<close> and width \<open>W \<ge> 1\<close>, the line records of each page are,
  in the order of the segmenter, the lines whose text is not empty, each with the four
  numbers of its box unchanged beside the text read from its crop. Every crop reaches the
  recogniser as an image of mode \<^verbatim>\<open>RGB\<close>, so that a recogniser which differs only on
  images of other modes gives the same result.
\<close>

theorem nonempty_lines_keep_their_boxes:
  assumes "list_all (\<lambda>p. well_formed p \<and> 1 \<le> height p \<and> 1 \<le> width p) pages"
    and "\<forall>img. mode img = ''RGB'' \<longrightarrow> decode' img = decode img"
  shows "\<exists>out. ocr_pages luma otsu to_rgb decode pages = Inr out
           \<and> ocr_pages luma otsu to_rgb decode' pages = Inr out
           \<and> length out = length pages
           \<and> (\<forall>k < length pages. \<exists>ls. segment_lines luma otsu (pages ! k) = Inr ls
                \<and> map (\<lambda>d. ((x1 (bbox_d d), y1 (bbox_d d), x2 (bbox_d d), y2 (bbox_d d)), text_d d))
                      (lines_d (out ! k))
                  = map (\<lambda>line. (bbox line, strip (decode (ensure_rgb to_rgb (image_of line)))))
                      (filter (\<lambda>line. strip (decode (ensure_rgb to_rgb (image_of line))) \<noteq> []) ls)
                \<and> (\<forall>line \<in> set ls. mode (ensure_rgb to_rgb (image_of line)) = ''RGB''))"
proof -
  let ?r = "recognize_line to_rgb decode"
  have r: "?r = (\<lambda>img. strip (decode (ensure_rgb to_rgb img)))"
    by (rule ext) (simp add: recognize_line_def)
  from ocr_from_pages [OF pages_have_pixels [OF assms(1)], where i = 1] obtain out
    where out: "ocr_pages luma otsu to_rgb decode pages = Inr out" "length out = length pages"
      and each: "\<And>k. k < length pages \<Longrightarrow>
          \<exists>ls. segment_lines luma otsu (pages ! k) = Inr ls
                \<and> lines_d (out ! k) = recognize_lines ?r ls"
    unfolding ocr_pages_def by blast
  have same: "ocr_pages luma otsu to_rgb decode' pages = Inr out"
    using out(1) ocr_from_cong [OF recognize_line_cong [OF assms(2)], where i = 1]
    by (simp add: ocr_pages_def)
  have "\<exists>ls. segment_lines luma otsu (pages ! k) = Inr ls
          \<and> map (\<lambda>d. ((x1 (bbox_d d), y1 (bbox_d d), x2 (bbox_d d), y2 (bbox_d d)), text_d d))
                (lines_d (out ! k))
            = map (\<lambda>line. (bbox line, strip (decode (ensure_rgb to_rgb (image_of line)))))
                (filter (\<lambda>line. strip (decode (ensure_rgb to_rgb (image_of line))) \<noteq> []) ls)
          \<and> (\<forall>line \<in> set ls. mode (ensure_rgb to_rgb (image_of line)) = ''RGB'')"
    if "k < length pages" for k
  proof -
    from each [OF that] obtain ls where ls: "segment_lines luma otsu (pages ! k) = Inr ls"
      and rec: "lines_d (out ! k) = recognize_lines ?r ls" by blast
    have "map (\<lambda>d. ((x1 (bbox_d d), y1 (bbox_d d), x2 (bbox_d d), y2 (bbox_d d)), text_d d))
                (lines_d (out ! k))
            = map (\<lambda>line. (bbox line, ?r (image_of line)))
                (filter (\<lambda>line. ?r (image_of line) \<noteq> []) ls)"
      unfolding rec by (rule recognize_lines_boxes)
    then show ?thesis using ls unfolding r by simp
  qed
  with out same show ?thesis by blast
qed

theorem nonempty_lines_keep_their_boxes_witness:
  "list_all (\<lambda>p. well_formed p \<and> 1 \<le> height p \<and> 1 \<le> width p) [page_two_lines, page_blank]
   \<and> ocr_pages luma_id otsu_zero rgb_of_grey decode_other [page_two_lines, page_blank] =
       Inr [\<lparr>page_d = 1,
             lines_d = [\<lparr>bbox_d = \<lparr>x1 = 0, y1 = 2, x2 = 2, y2 = 10\<rparr>, text_d = ''line one''\<rparr>]\<rparr>,
            \<lparr>page_d = 2, lines_d = []\<rparr>]"
  using nonempty_lines_keep_their_boxes [OF sample_pages_sized decode_other_rgb,
      of luma_id otsu_zero rgb_of_grey]
    sample_pages_sized
  by (auto simp: ocr_two_pages)

theorem empty_text_drops_bbox:
  "segment_lines luma_id otsu_zero page_two_lines =
     Inr [\<lparr>image_of = page_two_lines\<lparr>pixels := take 8 (drop 2 (pixels page_two_lines))\<rparr>,
           bbox = (0, 2, 2, 10)\<rparr>,
          \<lparr>image_of = page_two_lines\<lparr>pixels := drop 7 (pixels page_two_lines)\<rparr>,
           bbox = (0, 7, 2, 12)\<rparr>]
   \<and> ocr_pages luma_id otsu_zero rgb_of_grey decode_sample [page_two_lines] =
       Inr [\<lparr>page_d = 1,
             lines_d = [\<lparr>bbox_d = \<lparr>x1 = 0, y1 = 2, x2 = 2, y2 = 10\<rparr>, text_d = ''line one''\<rparr>]\<rparr>]"
  by (simp add: lines_two_lines ocr_two_lines)

text \<open>
  C7. When the projection of a page has a positive maximum, every row that attains the
  maximum is flagged, so some flag is true, and \<open>segment_lines\<close> returns at least one line.
\<close>

theorem ink_gives_a_line:
  assumes "1 \<le> height page" and "0 < Max (set (projection luma otsu page))"
  shows "(\<forall>i < height page.
            projection luma otsu page ! i = Max (set (projection luma otsu page))
            \<longrightarrow> is_text_row luma otsu page ! i)
         \<and> True \<in> set (is_text_row luma otsu page)
         \<and> (\<exists>rs. segment_lines luma otsu page = Inr rs \<and> rs \<noteq> [])"
proof -
  let ?proj = "projection luma otsu page"
  have ne: "?proj \<noteq> []"
    using assms(1) projection_length [of luma otsu page]
    by (metis One_nat_def length_0_conv not_less_eq_eq le0)
  have top: "is_text_row luma otsu page ! i" if "i < height page" "?proj ! i = Max (set ?proj)" for i
    using that times_tenth_less [OF assms(2)]
    by (simp add: is_text_row_def text_rows_def Let_def)
  have ink: "True \<in> set (is_text_row luma otsu page)"
    using text_rows_ink [OF ne assms(2)] by (simp add: is_text_row_def)
  then have "text_runs (is_text_row luma otsu page) \<noteq> []"
    by (simp add: text_runs_def runs_from_ink)
  moreover have "Max (set ?proj) \<in> set ?proj" using ne by (intro Max_in) simp_all
  then have "concat (pixels page) \<noteq> []" using assms(2) by (rule projection_pos_pixels)
  ultimately have "\<exists>rs. segment_lines luma otsu page = Inr rs \<and> rs \<noteq> []"
    by (simp add: segment_lines_runs)
  with top ink show ?thesis by blast
qed

theorem ink_gives_a_line_witness:
  "1 \<le> height page_two_lines \<and> 0 < Max (set (projection luma_id otsu_zero page_two_lines))
   \<and> (\<exists>rs. segment_lines luma_id otsu_zero page_two_lines = Inr rs \<and> rs \<noteq> [])"
proof -
  have h: "1 \<le> height page_two_lines" by (simp add: height_def page_two_lines_def)
  have m: "0 < Max (set (projection luma_id otsu_zero page_two_lines))"
    by (simp add: projection_two_lines)
  show ?thesis using h m ink_gives_a_line [OF h m] by simp
qed

text \<open>
  C8. Two pages with the same binary ink mask, one of them of height \<open>H \<ge> 1\<close> and width
  \<open>W \<ge> 1\<close>, have the same flag sequence, and \<open>segment_lines\<close> returns for them the same
  number of lines with the same bounding boxes, in the same order.
\<close>

theorem same_mask_same_boxes:
  assumes "1 \<le> height p" and "1 \<le> width p" and "well_formed p" and "well_formed q"
    and "threshold_inv otsu (to_gray luma p) = threshold_inv otsu (to_gray luma q)"
  shows "is_text_row luma otsu p = is_text_row luma otsu q
         \<and> (\<exists>rs rs'. segment_lines luma otsu p = Inr rs \<and> segment_lines luma otsu q = Inr rs'
              \<and> length rs = length rs' \<and> map bbox rs = map bbox rs')"
proof -
  have hq: "height q = height p"
    using mask_height [of otsu luma p] mask_height [of otsu luma q] assms(5) by simp
  then have hq1: "1 \<le> height q" using assms(1) by simp
  have w: "width q = width p"
    using mask_width [OF assms(3,1), of otsu luma] mask_width [OF assms(4) hq1, of otsu luma] assms(5)
    by simp
  then have wq1: "1 \<le> width q" using assms(2) by simp
  have pp: "concat (pixels p) \<noteq> []" using assms(3,1,2) by (rule page_has_pixels)
  have pq: "concat (pixels q) \<noteq> []" using assms(4) hq1 wq1 by (rule page_has_pixels)
  have flags: "is_text_row luma otsu p = is_text_row luma otsu q"
    by (simp add: is_text_row_def projection_def assms(5))
  have "map bbox (map (\<lambda>(s, e). closed_line p (height p) s e) runs)
      = map bbox (map (\<lambda>(s, e). closed_line q (height q) s e) runs)" for runs
    by (simp add: closed_line_bbox hq w split_def)
  then show ?thesis
    using flags by (simp add: segment_lines_runs [OF pp] segment_lines_runs [OF pq])
qed

theorem same_mask_same_boxes_witness:
  "1 \<le> height page_two_lines \<and> 1 \<le> width page_two_lines \<and> well_formed page_two_lines \<and> well_formed page_two_lines_grey
   \<and> threshold_inv otsu_zero (to_gray luma_id page_two_lines)
       = threshold_inv otsu_zero (to_gray luma_id page_two_lines_grey)
   \<and> (\<exists>rs rs'. segment_lines luma_id otsu_zero page_two_lines = Inr rs
        \<and> segment_lines luma_id otsu_zero page_two_lines_grey = Inr rs'
        \<and> length rs = length rs' \<and> map bbox rs = map bbox rs')"
proof -
  have h: "1 \<le> height page_two_lines" by (simp add: height_def page_two_lines_def)
  have w: "1 \<le> width page_two_lines" by (simp add: page_two_lines_def)
  have wf: "well_formed page_two_lines" by (simp add: well_formed_def page_two_lines_def)
  have wf': "well_formed page_two_lines_grey"
    by (simp add: well_formed_def page_two_lines_grey_def)
  have m: "threshold_inv otsu_zero (to_gray luma_id page_two_lines)
       = threshold_inv otsu_zero (to_gray luma_id page_two_lines_grey)"
    by (simp add: threshold_inv_def to_gray_def luma_id_def otsu_zero_def page_two_lines_def
        page_two_lines_grey_def)
  show ?thesis using h w wf wf' m same_mask_same_boxes [OF h w wf wf' m] by blast
qed



text \<open>
  C10. For pages of height \<open>H \<ge> 1\<close> and width \<open>W \<ge> 1\<close>, \<open>ocr_pages\<close> returns one page record
  for each page, in order, numbered from 1. The line records of a page are those of the
  segmenter's lines whose stripped text is not empty, so there may be fewer of them than
  lines; a page whose lines all read as empty text keeps its record, with its number and
  no line records.
\<close>

theorem ocr_pages_keeps_lines_with_text:
  assumes "list_all (\<lambda>p. well_formed p \<and> 1 \<le> height p \<and> 1 \<le> width p) pages"
  shows "\<exists>out. ocr_pages luma otsu to_rgb decode pages = Inr out \<and> length out = length pages
     \<and> (\<forall>k < length pages. page_d (out ! k) = int k + 1
          \<and> (\<exists>ls. segment_lines luma otsu (pages ! k) = Inr ls
                \<and> lines_d (out ! k) =
                    map (line_record (recognize_line to_rgb decode))
                      (filter (\<lambda>line. recognize_line to_rgb decode (image_of line) \<noteq> []) ls)
                \<and> length (lines_d (out ! k)) \<le> length ls
                \<and> ((\<forall>line \<in> set ls. recognize_line to_rgb decode (image_of line) = [])
                     \<longrightarrow> lines_d (out ! k) = [])))"
proof -
  let ?r = "recognize_line to_rgb decode"
  from ocr_from_pages [OF pages_have_pixels [OF assms], where i = 1] obtain out
    where out: "ocr_pages luma otsu to_rgb decode pages = Inr out" "length out = length pages"
      and each: "\<And>k. k < length pages \<Longrightarrow> page_d (out ! k) = 1 + int k
          \<and> (\<exists>ls. segment_lines luma otsu (pages ! k) = Inr ls
                \<and> lines_d (out ! k) = recognize_lines ?r ls)"
    unfolding ocr_pages_def by blast
  have "page_d (out ! k) = int k + 1
          \<and> (\<exists>ls. segment_lines luma otsu (pages ! k) = Inr ls
                \<and> lines_d (out ! k) = map (line_record ?r) (filter (\<lambda>line. ?r (image_of line) \<noteq> []) ls)
                \<and> length (lines_d (out ! k)) \<le> length ls
                \<and> ((\<forall>line \<in> set ls. ?r (image_of line) = []) \<longrightarrow> lines_d (out ! k) = []))"
    if "k < length pages" for k
  proof -
    from each [OF that] obtain ls where no: "page_d (out ! k) = 1 + int k"
      and ls: "segment_lines luma otsu (pages ! k) = Inr ls"
      and rec: "lines_d (out ! k) = recognize_lines ?r ls" by blast
    have f: "lines_d (out ! k) = map (line_record ?r) (filter (\<lambda>line. ?r (image_of line) \<noteq> []) ls)"
      using rec by (simp add: recognize_lines_filter)
    have "length (lines_d (out ! k)) \<le> length ls" by (simp add: f)
    moreover have "(\<forall>line \<in> set ls. ?r (image_of line) = []) \<longrightarrow> lines_d (out ! k) = []"
      by (simp add: f filter_empty_conv)
    ultimately show ?thesis using no ls f by auto
  qed
  with out show ?thesis by blast
qed

theorem ocr_pages_keeps_lines_with_text_witness:
  "list_all (\<lambda>p. well_formed p \<and> 1 \<le> height p \<and> 1 \<le> width p) [page_two_lines, page_blank]
   \<and> (\<exists>out ls. ocr_pages luma_id otsu_zero rgb_of_grey decode_sample [page_two_lines, page_blank] = Inr out
        \<and> length out = 2 \<and> page_d (out ! 0) = 1 \<and> page_d (out ! 1) = 2
        \<and> segment_lines luma_id otsu_zero page_two_lines = Inr ls
        \<and> length (lines_d (out ! 0)) = 1 \<and> length ls = 2 \<and> lines_d (out ! 1) = [])"
  using ocr_pages_keeps_lines_with_text [OF sample_pages_sized,
      of luma_id otsu_zero rgb_of_grey decode_sample]
    sample_pages_sized
  by (auto simp: ocr_two_pages lines_two_lines)

end
